theory Spec2Isabelle
  imports Complex_Main
begin

section \<open>The CSS selector builder of 05-objects-tasks.js\<close>

text \<open>
  The source is one JavaScript file. Its class \<^verbatim>\<open>Builder\<close> accumulates the parts of
  one compound selector in seven fields, and its methods mutate the receiver and either
  return it or throw an \<^verbatim>\<open>Error\<close>. The model passes the receiver explicitly: a method
  takes the builder and returns the builder as the call leaves it, paired with the
  error it threw, if any. A method that throws after an assignment therefore returns the
  assigned state together with the error, as the JavaScript object keeps the assignment.
  Argument values are strings, as the documented interface has them.
\<close>

subsection \<open>Errors\<close>

text \<open>
  The source throws plain \<^verbatim>\<open>Error\<close> objects that differ in their message only:
  \<^item> \<open>DuplicateFragmentError\<close> is the message \<^verbatim>\<open>Element, id and pseudo-element should not
    occur more then one time inside the selector\<close>;
  \<^item> \<open>OrderViolationError\<close> is the message \<^verbatim>\<open>Selector parts should be arranged in the
    following order: element, id, class, attribute, pseudo-class, pseudo-element\<close>;
  \<^item> \<open>TypeError\<close> is what the runtime throws when a method is called on an object
    that does not have it, or a prototype is set on \<^verbatim>\<open>null\<close>;
  \<^item> \<open>MalformedInputError\<close> is the failure of the JSON parser on text that is no
    JSON (the runtime's \<^verbatim>\<open>SyntaxError\<close>).
\<close>

datatype error = DuplicateFragmentError | OrderViolationError | TypeError | MalformedInputError

subsection \<open>The class Builder\<close>

record builder =
  elem :: string
  idTag :: string
  classes :: "string list"
  attributes :: "string list"
  pseudoClasses :: "string list"
  pseudoElem :: string
  order :: "nat list"

text \<open>The constructor.\<close>

definition new_Builder :: builder where
  "new_Builder =
     \<lparr>elem = '''', idTag = '''', classes = [], attributes = [], pseudoClasses = [],
      pseudoElem = '''', order = []\<rparr>"

text \<open>
  \<^verbatim>\<open>Array.prototype.includes\<close> on an array of strings; the argument is \<open>None\<close> when the
  caller passed nothing (\<^verbatim>\<open>undefined\<close>), which no string equals.
\<close>

definition Array_includes :: "string list \<Rightarrow> string option \<Rightarrow> bool" where
  "Array_includes xs value = (case value of None \<Rightarrow> False | Some v \<Rightarrow> List.member xs v)"

text \<open>\<^verbatim>\<open>isAlreadyDefined(selectorType, value)\<close>: the switch, case by case.\<close>

definition Builder_isAlreadyDefined :: "string \<Rightarrow> string option \<Rightarrow> builder \<Rightarrow> bool" where
  "Builder_isAlreadyDefined selectorType value this =
     (if selectorType = ''element'' then elem this \<noteq> ''''
      else if selectorType = ''id'' then idTag this \<noteq> ''''
      else if selectorType = ''class'' then Array_includes (classes this) value
      else if selectorType = ''attr'' then Array_includes (attributes this) value
      else if selectorType = ''pseudoClass'' then Array_includes (pseudoClasses this) value
      else if selectorType = ''pseudoElement'' then pseudoElem this \<noteq> ''''
      else False)"

text \<open>
  \<^verbatim>\<open>checkOrder()\<close> reduces \<^verbatim>\<open>this.order\<close> from 0: a value that is at least the
  accumulator becomes the accumulator, a smaller one throws.
\<close>

fun checkOrder_reduce :: "nat \<Rightarrow> nat list \<Rightarrow> error + nat" where
  "checkOrder_reduce res [] = Inr res"
| "checkOrder_reduce res (val # vals) =
     (if val \<ge> res then checkOrder_reduce val vals else Inl OrderViolationError)"

definition Builder_checkOrder :: "builder \<Rightarrow> error + nat" where
  "Builder_checkOrder this = checkOrder_reduce 0 (order this)"

text \<open>
  The tail that the six fragment methods share: \<^verbatim>\<open>this.order.push(rank);
  this.checkOrder(); return this;\<close>
\<close>

definition push_and_check :: "nat \<Rightarrow> builder \<Rightarrow> builder \<times> error option" where
  "push_and_check rank this =
     (let this' = this\<lparr>order := order this @ [rank]\<rparr>
      in case Builder_checkOrder this' of
           Inl e \<Rightarrow> (this', Some e)
         | Inr _ \<Rightarrow> (this', None))"

definition Builder_element :: "string \<Rightarrow> builder \<Rightarrow> builder \<times> error option" where
  "Builder_element value this =
     (if Builder_isAlreadyDefined ''element'' None this
      then (this, Some DuplicateFragmentError)
      else push_and_check 1 (this\<lparr>elem := value\<rparr>))"

definition Builder_id :: "string \<Rightarrow> builder \<Rightarrow> builder \<times> error option" where
  "Builder_id value this =
     (if Builder_isAlreadyDefined ''id'' None this
      then (this, Some DuplicateFragmentError)
      else push_and_check 2 (this\<lparr>idTag := ''#'' @ value\<rparr>))"

definition Builder_class :: "string \<Rightarrow> builder \<Rightarrow> builder \<times> error option" where
  "Builder_class value this =
     push_and_check 3 (this\<lparr>classes := classes this @ [''.'' @ value]\<rparr>)"

definition Builder_attr :: "string \<Rightarrow> builder \<Rightarrow> builder \<times> error option" where
  "Builder_attr value this =
     push_and_check 4 (this\<lparr>attributes := attributes this @ [''['' @ value @ '']'']\<rparr>)"

definition Builder_pseudoClass :: "string \<Rightarrow> builder \<Rightarrow> builder \<times> error option" where
  "Builder_pseudoClass value this =
     push_and_check 5 (this\<lparr>pseudoClasses := pseudoClasses this @ ['':'' @ value]\<rparr>)"

definition Builder_pseudoElement :: "string \<Rightarrow> builder \<Rightarrow> builder \<times> error option" where
  "Builder_pseudoElement value this =
     (if Builder_isAlreadyDefined ''pseudoElement'' None this
      then (this, Some DuplicateFragmentError)
      else push_and_check 6 (this\<lparr>pseudoElem := ''::'' @ value\<rparr>))"

subsection \<open>stringify\<close>

text \<open>
  \<^verbatim>\<open>Object.entries(this)\<close> lists the own properties in the order the constructor
  created them; a property value is a string, an array of strings, or the array of
  numbers \<^verbatim>\<open>order\<close>.
\<close>

datatype property = Str string | StrArray "string list" | NumArray "nat list"

definition entries :: "builder \<Rightarrow> (string \<times> property) list" where
  "entries this =
     [(''elem'', Str (elem this)),
      (''idTag'', Str (idTag this)),
      (''classes'', StrArray (classes this)),
      (''attributes'', StrArray (attributes this)),
      (''pseudoClasses'', StrArray (pseudoClasses this)),
      (''pseudoElem'', Str (pseudoElem this)),
      (''order'', NumArray (order this))]"

fun property_length :: "property \<Rightarrow> nat" where
  "property_length (Str s) = length s"
| "property_length (StrArray xs) = length xs"
| "property_length (NumArray ns) = length ns"

text \<open>The callback of the reduce: \<^verbatim>\<open>res.push(el[1])\<close> under the guard.\<close>

definition stringify_reduce :: "property list \<Rightarrow> string \<times> property \<Rightarrow> property list" where
  "stringify_reduce res el =
     (if property_length (snd el) > 0 \<and> fst el \<noteq> ''order'' then res @ [snd el] else res)"

text \<open>
  \<^verbatim>\<open>flat()\<close> replaces each array by its elements, one level deep, and leaves a string
  as one element; \<^verbatim>\<open>join('')\<close> concatenates the elements' string forms.
\<close>

datatype element = StrElem string | NumElem nat

fun flat1 :: "property \<Rightarrow> element list" where
  "flat1 (Str s) = [StrElem s]"
| "flat1 (StrArray xs) = map StrElem xs"
| "flat1 (NumArray ns) = map NumElem ns"

definition flat :: "property list \<Rightarrow> element list" where
  "flat res = concat (map flat1 res)"

fun decimal :: "nat \<Rightarrow> string" where
  "decimal n =
     (if n < 10 then [char_of (48 + n)] else decimal (n div 10) @ [char_of (48 + n mod 10)])"

fun toString :: "element \<Rightarrow> string" where
  "toString (StrElem s) = s"
| "toString (NumElem n) = decimal n"

definition join :: "element list \<Rightarrow> string" where
  "join xs = concat (map toString xs)"

definition Builder_stringify :: "builder \<Rightarrow> string" where
  "Builder_stringify this = join (flat (foldl stringify_reduce [] (entries this)))"

subsection \<open>Calls, chains and callers that catch\<close>

text \<open>
  A fragment-adding call names one of the six methods and carries its argument. The
  rank of a call is the number its method pushes onto \<^verbatim>\<open>order\<close>.
\<close>

datatype call =
    Element string
  | Id string
  | Class string
  | Attr string
  | PseudoClass string
  | PseudoElement string

fun rank :: "call \<Rightarrow> nat" where
  "rank (Element _) = 1"
| "rank (Id _) = 2"
| "rank (Class _) = 3"
| "rank (Attr _) = 4"
| "rank (PseudoClass _) = 5"
| "rank (PseudoElement _) = 6"

fun apply_call :: "call \<Rightarrow> builder \<Rightarrow> builder \<times> error option" where
  "apply_call (Element v) this = Builder_element v this"
| "apply_call (Id v) this = Builder_id v this"
| "apply_call (Class v) this = Builder_class v this"
| "apply_call (Attr v) this = Builder_attr v this"
| "apply_call (PseudoClass v) this = Builder_pseudoClass v this"
| "apply_call (PseudoElement v) this = Builder_pseudoElement v this"

text \<open>
  The guard that a call evaluates before it assigns anything: the three single-valued
  methods ask \<^verbatim>\<open>isAlreadyDefined\<close>, the three list methods ask nothing.
\<close>

fun duplicate_guard :: "call \<Rightarrow> builder \<Rightarrow> bool" where
  "duplicate_guard (Element _) this = Builder_isAlreadyDefined ''element'' None this"
| "duplicate_guard (Id _) this = Builder_isAlreadyDefined ''id'' None this"
| "duplicate_guard (PseudoElement _) this = Builder_isAlreadyDefined ''pseudoElement'' None this"
| "duplicate_guard _ this = False"

text \<open>
  A fluent chain \<^verbatim>\<open>b.m1(v1).m2(v2)...\<close>: each call runs on the object the previous one
  returned, and the first throw ends the chain. Each of the six entry points of the
  facade \<^verbatim>\<open>cssSelectorBuilder\<close> calls the method of its name on \<^verbatim>\<open>new Builder()\<close>, so a
  chain that starts at the facade is a chain on \<open>new_Builder\<close>.
\<close>

fun chain :: "call list \<Rightarrow> builder \<Rightarrow> builder \<times> error option" where
  "chain [] this = (this, None)"
| "chain (c # cs) this =
     (case apply_call c this of
        (this', None) \<Rightarrow> chain cs this'
      | (this', Some e) \<Rightarrow> (this', Some e))"

text \<open>
  A caller that wraps every call in \<^verbatim>\<open>try/catch\<close> and goes on with the same object:
  the state after the calls, whatever they threw.
\<close>

definition catching :: "call list \<Rightarrow> builder \<Rightarrow> builder" where
  "catching cs this = foldl (\<lambda>b c. fst (apply_call c b)) this cs"

text \<open>
  Method calls on one object, \<^verbatim>\<open>stringify()\<close> among them, each in its own
  \<^verbatim>\<open>try/catch\<close>, with what each call returned or threw.
\<close>

datatype operation = Fragment call | Stringify

datatype outcome = ReturnedThis | ReturnedString string | Threw error

fun invoke :: "operation \<Rightarrow> builder \<Rightarrow> builder \<times> outcome" where
  "invoke (Fragment c) this =
     (case apply_call c this of
        (this', None) \<Rightarrow> (this', ReturnedThis)
      | (this', Some e) \<Rightarrow> (this', Threw e))"
| "invoke Stringify this = (this, ReturnedString (Builder_stringify this))"

fun invoke_all :: "operation list \<Rightarrow> builder \<Rightarrow> builder \<times> outcome list" where
  "invoke_all [] this = (this, [])"
| "invoke_all (m # ms) this =
     (case invoke m this of
        (this', r) \<Rightarrow> (case invoke_all ms this' of (this'', rs) \<Rightarrow> (this'', r # rs)))"

subsection \<open>Objects, references and combine\<close>

text \<open>
  \<^verbatim>\<open>combine\<close> receives references to two objects that have a \<^verbatim>\<open>stringify\<close> method, and
  returns a new object. References are indices into the list of the objects allocated
  so far; a new object goes to the end.
\<close>

record combined =
  result :: string

datatype obj = BuilderObj builder | CombinedObj combined

type_synonym heap = "obj list"

fun obj_stringify :: "obj \<Rightarrow> string" where
  "obj_stringify (BuilderObj b) = Builder_stringify b"
| "obj_stringify (CombinedObj c) = result c"

definition ref_stringify :: "heap \<Rightarrow> nat \<Rightarrow> string option" where
  "ref_stringify h r = (if r < length h then Some (obj_stringify (h ! r)) else None)"

text \<open>
  \<^verbatim>\<open>combine(selector1, combinator, selector2)\<close>: the template literal calls
  \<^verbatim>\<open>stringify\<close> on the left operand, then on the right one, and the new object keeps
  the resulting string only. The result is the new heap and the reference to the new
  object; \<open>None\<close> when an operand is no object of the heap.
\<close>

definition cssSelectorBuilder_combine :: "heap \<Rightarrow> nat \<Rightarrow> string \<Rightarrow> nat \<Rightarrow> (heap \<times> nat) option" where
  "cssSelectorBuilder_combine h selector1 combinator selector2 =
     (case ref_stringify h selector1 of
        None \<Rightarrow> None
      | Some s1 \<Rightarrow>
          (case ref_stringify h selector2 of
             None \<Rightarrow> None
           | Some s2 \<Rightarrow>
               Some (h @ [CombinedObj \<lparr>result = s1 @ '' '' @ combinator @ '' '' @ s2\<rparr>],
                     length h)))"

text \<open>
  A fragment-adding call through a reference mutates the builder the reference points
  to; an object that \<^verbatim>\<open>combine\<close> returned has no such method.
\<close>

definition ref_call :: "heap \<Rightarrow> nat \<times> call \<Rightarrow> heap \<times> error option" where
  "ref_call h rc =
     (if fst rc < length h then
        (case h ! fst rc of
           BuilderObj b \<Rightarrow>
             (case apply_call (snd rc) b of (b', e) \<Rightarrow> (h[fst rc := BuilderObj b'], e))
         | CombinedObj _ \<Rightarrow> (h, Some TypeError))
      else (h, Some TypeError))"

definition ref_calls :: "heap \<Rightarrow> (nat \<times> call) list \<Rightarrow> heap" where
  "ref_calls h rcs = foldl (\<lambda>h' rc. fst (ref_call h' rc)) h rcs"

subsection \<open>What the specification says stringify returns\<close>

text \<open>
  The pre-formatted string of a fragment is what its method stores: the element as it
  is, \<open>#\<close> and the id, \<open>.\<close> and the class, the attribute in brackets, \<open>:\<close> and the
  pseudo-class, \<open>::\<close> and the pseudo-element.
\<close>

fun fragment_of :: "call \<Rightarrow> string" where
  "fragment_of (Element v) = v"
| "fragment_of (Id v) = ''#'' @ v"
| "fragment_of (Class v) = ''.'' @ v"
| "fragment_of (Attr v) = ''['' @ v @ '']''"
| "fragment_of (PseudoClass v) = '':'' @ v"
| "fragment_of (PseudoElement v) = ''::'' @ v"

text \<open>The fragments of one category among the calls made, in call order.\<close>

definition fragments :: "nat \<Rightarrow> call list \<Rightarrow> string list" where
  "fragments r cs = map fragment_of (filter (\<lambda>c. rank c = r) cs)"

text \<open>
  The rendering as the specification words it: the categories in their fixed order,
  each in call order, with nothing in between.
\<close>

definition spec_render :: "call list \<Rightarrow> string" where
  "spec_render cs =
     concat (fragments 1 cs @ fragments 2 cs @ fragments 3 cs @ fragments 4 cs @
             fragments 5 cs @ fragments 6 cs)"

text \<open>The calls of the three categories that may repeat.\<close>

fun is_list_call :: "call \<Rightarrow> bool" where
  "is_list_call (Class _) = True"
| "is_list_call (Attr _) = True"
| "is_list_call (PseudoClass _) = True"
| "is_list_call _ = False"

subsection \<open>The builder as cells of a store\<close>

text \<open>
  The record above holds the three arrays and \<^verbatim>\<open>order\<close> by value. In the program they are
  objects of their own that the builder refers to, \<^verbatim>\<open>push\<close> mutates an array in place, and
  \<open>stringify\<close> pushes the builder's own arrays, by reference, onto a new array. This
  second model keeps that: a store is the list of the cells allocated so far, a
  reference is an index into it, the builder is a cell whose array fields are
  references, and every method takes the store and the reference \<^verbatim>\<open>this\<close> and returns
  the store as the call leaves it.
\<close>

datatype jsval = VStr string | VNum nat | VRef nat

record builder_object =
  elem_slot :: string
  idTag_slot :: string
  classes_slot :: nat
  attributes_slot :: nat
  pseudoClasses_slot :: nat
  pseudoElem_slot :: string
  order_slot :: nat

datatype cell = BuilderCell builder_object | ArrayCell "jsval list"

type_synonym store = "cell list"

text \<open>
  How a step ends: it returns a value, it throws, or the store is one the model does
  not describe (a reference to no cell, a number compared with something that is no
  number, the string form of an object inside \<^verbatim>\<open>join\<close>). \<open>Unmodelled\<close> is no behaviour
  of the program; the theorems show that no call on a builder reaches it.
\<close>

datatype 'a completion = Returns 'a | Throws error | Unmodelled

fun and_then ::
  "store \<times> 'a completion \<Rightarrow> (store \<Rightarrow> 'a \<Rightarrow> store \<times> 'b completion) \<Rightarrow> store \<times> 'b completion" where
  "and_then (st, Returns x) f = f st x"
| "and_then (st, Throws e) f = (st, Throws e)"
| "and_then (st, Unmodelled) f = (st, Unmodelled)"

text \<open>
  Reading \<^verbatim>\<open>this\<close> as a builder and a field as an array: a method of the one called on
  the other is no function, which is a \<open>TypeError\<close>.
\<close>

definition read_builder :: "store \<Rightarrow> nat \<Rightarrow> store \<times> builder_object completion" where
  "read_builder st r =
     (if r < length st then
        (case st ! r of BuilderCell ob \<Rightarrow> (st, Returns ob) | ArrayCell _ \<Rightarrow> (st, Throws TypeError))
      else (st, Unmodelled))"

definition read_array :: "store \<Rightarrow> nat \<Rightarrow> store \<times> jsval list completion" where
  "read_array st r =
     (if r < length st then
        (case st ! r of ArrayCell xs \<Rightarrow> (st, Returns xs) | BuilderCell _ \<Rightarrow> (st, Throws TypeError))
      else (st, Unmodelled))"

text \<open>\<^verbatim>\<open>array.push(v)\<close> and \<^verbatim>\<open>this.field = ...\<close>: both write one cell of the store.\<close>

definition array_push :: "store \<Rightarrow> nat \<Rightarrow> jsval \<Rightarrow> store \<times> unit completion" where
  "array_push st r v =
     and_then (read_array st r) (\<lambda>st xs. (st[r := ArrayCell (xs @ [v])], Returns ()))"

definition assign :: "(builder_object \<Rightarrow> builder_object) \<Rightarrow> store \<Rightarrow> nat \<Rightarrow> store \<times> unit completion" where
  "assign f st this =
     and_then (read_builder st this) (\<lambda>st ob. (st[this := BuilderCell (f ob)], Returns ()))"

text \<open>
  \<^verbatim>\<open>new Builder()\<close> allocates the object and then, as the constructor runs, the four
  arrays.
\<close>

definition store_new_Builder :: "store \<Rightarrow> store \<times> nat" where
  "store_new_Builder st =
     (let this = length st
      in (st @ [BuilderCell \<lparr>elem_slot = '''', idTag_slot = '''', classes_slot = this + 1,
                  attributes_slot = this + 2, pseudoClasses_slot = this + 3,
                  pseudoElem_slot = '''', order_slot = this + 4\<rparr>,
                ArrayCell [], ArrayCell [], ArrayCell [], ArrayCell []],
          this))"

definition store_includes :: "jsval list \<Rightarrow> jsval option \<Rightarrow> bool" where
  "store_includes xs value = (case value of None \<Rightarrow> False | Some v \<Rightarrow> List.member xs v)"

definition store_isAlreadyDefined ::
  "string \<Rightarrow> jsval option \<Rightarrow> store \<Rightarrow> nat \<Rightarrow> store \<times> bool completion" where
  "store_isAlreadyDefined selectorType value st this =
     and_then (read_builder st this) (\<lambda>st ob.
       if selectorType = ''element'' then (st, Returns (elem_slot ob \<noteq> ''''))
       else if selectorType = ''id'' then (st, Returns (idTag_slot ob \<noteq> ''''))
       else if selectorType = ''class'' then
         and_then (read_array st (classes_slot ob)) (\<lambda>st xs. (st, Returns (store_includes xs value)))
       else if selectorType = ''attr'' then
         and_then (read_array st (attributes_slot ob)) (\<lambda>st xs. (st, Returns (store_includes xs value)))
       else if selectorType = ''pseudoClass'' then
         and_then (read_array st (pseudoClasses_slot ob)) (\<lambda>st xs. (st, Returns (store_includes xs value)))
       else if selectorType = ''pseudoElement'' then (st, Returns (pseudoElem_slot ob \<noteq> ''''))
       else (st, Returns False))"

fun store_checkOrder_reduce :: "nat \<Rightarrow> jsval list \<Rightarrow> nat completion" where
  "store_checkOrder_reduce res [] = Returns res"
| "store_checkOrder_reduce res (VNum val # vals) =
     (if val \<ge> res then store_checkOrder_reduce val vals else Throws OrderViolationError)"
| "store_checkOrder_reduce res (_ # vals) = Unmodelled"

definition store_checkOrder :: "store \<Rightarrow> nat \<Rightarrow> store \<times> nat completion" where
  "store_checkOrder st this =
     and_then (read_builder st this) (\<lambda>st ob.
       and_then (read_array st (order_slot ob)) (\<lambda>st xs. (st, store_checkOrder_reduce 0 xs)))"

definition store_push_and_check :: "nat \<Rightarrow> store \<Rightarrow> nat \<Rightarrow> store \<times> nat completion" where
  "store_push_and_check n st this =
     and_then (read_builder st this) (\<lambda>st ob.
       and_then (array_push st (order_slot ob) (VNum n)) (\<lambda>st _.
         and_then (store_checkOrder st this) (\<lambda>st _. (st, Returns this))))"

definition store_element :: "string \<Rightarrow> store \<Rightarrow> nat \<Rightarrow> store \<times> nat completion" where
  "store_element value st this =
     and_then (store_isAlreadyDefined ''element'' None st this) (\<lambda>st defined.
       if defined then (st, Throws DuplicateFragmentError)
       else and_then (assign (\<lambda>ob. ob\<lparr>elem_slot := value\<rparr>) st this) (\<lambda>st _.
              store_push_and_check 1 st this))"

definition store_id :: "string \<Rightarrow> store \<Rightarrow> nat \<Rightarrow> store \<times> nat completion" where
  "store_id value st this =
     and_then (store_isAlreadyDefined ''id'' None st this) (\<lambda>st defined.
       if defined then (st, Throws DuplicateFragmentError)
       else and_then (assign (\<lambda>ob. ob\<lparr>idTag_slot := ''#'' @ value\<rparr>) st this) (\<lambda>st _.
              store_push_and_check 2 st this))"

definition store_class :: "string \<Rightarrow> store \<Rightarrow> nat \<Rightarrow> store \<times> nat completion" where
  "store_class value st this =
     and_then (read_builder st this) (\<lambda>st ob.
       and_then (array_push st (classes_slot ob) (VStr (''.'' @ value))) (\<lambda>st _.
         store_push_and_check 3 st this))"

definition store_attr :: "string \<Rightarrow> store \<Rightarrow> nat \<Rightarrow> store \<times> nat completion" where
  "store_attr value st this =
     and_then (read_builder st this) (\<lambda>st ob.
       and_then (array_push st (attributes_slot ob) (VStr (''['' @ value @ '']''))) (\<lambda>st _.
         store_push_and_check 4 st this))"

definition store_pseudoClass :: "string \<Rightarrow> store \<Rightarrow> nat \<Rightarrow> store \<times> nat completion" where
  "store_pseudoClass value st this =
     and_then (read_builder st this) (\<lambda>st ob.
       and_then (array_push st (pseudoClasses_slot ob) (VStr ('':'' @ value))) (\<lambda>st _.
         store_push_and_check 5 st this))"

definition store_pseudoElement :: "string \<Rightarrow> store \<Rightarrow> nat \<Rightarrow> store \<times> nat completion" where
  "store_pseudoElement value st this =
     and_then (store_isAlreadyDefined ''pseudoElement'' None st this) (\<lambda>st defined.
       if defined then (st, Throws DuplicateFragmentError)
       else and_then (assign (\<lambda>ob. ob\<lparr>pseudoElem_slot := ''::'' @ value\<rparr>) st this) (\<lambda>st _.
              store_push_and_check 6 st this))"

text \<open>
  \<open>stringify\<close>, step by step. \<^verbatim>\<open>Object.entries(this)\<close> pairs each field name with the
  field's value, which for an array field is the reference to the builder's own array.
  The accumulator \<^verbatim>\<open>res\<close> of the reduce is a new array in the store, and the callback
  pushes onto it. \<^verbatim>\<open>el[1].length > 0\<close> reads the length of a string or of an array; a
  number or a builder has no \<^verbatim>\<open>length\<close>, and \<^verbatim>\<open>undefined > 0\<close> is false. \<^verbatim>\<open>flat()\<close>
  allocates a second array, with each element that refers to an array replaced by that
  array's elements, and \<^verbatim>\<open>join('')\<close> concatenates the string forms of its elements.
\<close>

definition store_entries :: "builder_object \<Rightarrow> (string \<times> jsval) list" where
  "store_entries ob =
     [(''elem'', VStr (elem_slot ob)),
      (''idTag'', VStr (idTag_slot ob)),
      (''classes'', VRef (classes_slot ob)),
      (''attributes'', VRef (attributes_slot ob)),
      (''pseudoClasses'', VRef (pseudoClasses_slot ob)),
      (''pseudoElem'', VStr (pseudoElem_slot ob)),
      (''order'', VRef (order_slot ob))]"

fun length_positive :: "store \<Rightarrow> jsval \<Rightarrow> store \<times> bool completion" where
  "length_positive st (VStr s) = (st, Returns (length s > 0))"
| "length_positive st (VNum n) = (st, Returns False)"
| "length_positive st (VRef r) =
     (if r < length st then
        (case st ! r of ArrayCell xs \<Rightarrow> (st, Returns (length xs > 0))
                      | BuilderCell _ \<Rightarrow> (st, Returns False))
      else (st, Unmodelled))"

definition store_stringify_step :: "nat \<Rightarrow> store \<Rightarrow> string \<times> jsval \<Rightarrow> store \<times> unit completion" where
  "store_stringify_step res st el =
     and_then (length_positive st (snd el)) (\<lambda>st positive.
       if positive \<and> fst el \<noteq> ''order'' then array_push st res (snd el) else (st, Returns ()))"

fun store_reduce :: "nat \<Rightarrow> store \<Rightarrow> (string \<times> jsval) list \<Rightarrow> store \<times> unit completion" where
  "store_reduce res st [] = (st, Returns ())"
| "store_reduce res st (el # els) =
     and_then (store_stringify_step res st el) (\<lambda>st _. store_reduce res st els)"

fun flat_value :: "store \<Rightarrow> jsval \<Rightarrow> jsval list" where
  "flat_value st (VRef r) =
     (if r < length st then (case st ! r of ArrayCell xs \<Rightarrow> xs | BuilderCell _ \<Rightarrow> [VRef r])
      else [VRef r])"
| "flat_value st v = [v]"

definition store_flat :: "store \<Rightarrow> nat \<Rightarrow> store \<times> nat completion" where
  "store_flat st r =
     and_then (read_array st r) (\<lambda>st xs.
       (st @ [ArrayCell (concat (map (flat_value st) xs))], Returns (length st)))"

fun join_values :: "jsval list \<Rightarrow> string completion" where
  "join_values [] = Returns ''''"
| "join_values (VStr s # vs) =
     (case join_values vs of Returns t \<Rightarrow> Returns (s @ t) | Throws e \<Rightarrow> Throws e
      | Unmodelled \<Rightarrow> Unmodelled)"
| "join_values (VNum n # vs) =
     (case join_values vs of Returns t \<Rightarrow> Returns (decimal n @ t) | Throws e \<Rightarrow> Throws e
      | Unmodelled \<Rightarrow> Unmodelled)"
| "join_values (VRef r # vs) = Unmodelled"

definition store_join :: "store \<Rightarrow> nat \<Rightarrow> store \<times> string completion" where
  "store_join st r = and_then (read_array st r) (\<lambda>st xs. (st, join_values xs))"

definition store_stringify :: "store \<Rightarrow> nat \<Rightarrow> store \<times> string completion" where
  "store_stringify st this =
     and_then (read_builder st this) (\<lambda>st ob.
       and_then (st @ [ArrayCell []], Returns (length st)) (\<lambda>st res.
         and_then (store_reduce res st (store_entries ob)) (\<lambda>st _.
           and_then (store_flat st res) (\<lambda>st flattened. store_join st flattened))))"

text \<open>
  Method calls through the reference \<^verbatim>\<open>this\<close>, each in its own \<^verbatim>\<open>try/catch\<close>: the store
  they leave and how each call ended.
\<close>

datatype returned = This nat | Text string

fun store_invoke :: "operation \<Rightarrow> store \<Rightarrow> nat \<Rightarrow> store \<times> returned completion" where
  "store_invoke (Fragment (Element v)) st this =
     and_then (store_element v st this) (\<lambda>st r. (st, Returns (This r)))"
| "store_invoke (Fragment (Id v)) st this =
     and_then (store_id v st this) (\<lambda>st r. (st, Returns (This r)))"
| "store_invoke (Fragment (Class v)) st this =
     and_then (store_class v st this) (\<lambda>st r. (st, Returns (This r)))"
| "store_invoke (Fragment (Attr v)) st this =
     and_then (store_attr v st this) (\<lambda>st r. (st, Returns (This r)))"
| "store_invoke (Fragment (PseudoClass v)) st this =
     and_then (store_pseudoClass v st this) (\<lambda>st r. (st, Returns (This r)))"
| "store_invoke (Fragment (PseudoElement v)) st this =
     and_then (store_pseudoElement v st this) (\<lambda>st r. (st, Returns (This r)))"
| "store_invoke Stringify st this =
     and_then (store_stringify st this) (\<lambda>st s. (st, Returns (Text s)))"

fun store_invoke_all :: "operation list \<Rightarrow> store \<Rightarrow> nat \<Rightarrow> store \<times> returned completion list" where
  "store_invoke_all [] st this = (st, [])"
| "store_invoke_all (m # ms) st this =
     (case store_invoke m st this of
        (st', r) \<Rightarrow> (case store_invoke_all ms st' this of (st'', rs) \<Rightarrow> (st'', r # rs)))"

text \<open>
  The link between the two models: the cell at \<^verbatim>\<open>this\<close> is a builder with the strings of
  the record, and its four references are apart and lead to arrays with the elements
  of the record's lists.
\<close>

definition holds :: "store \<Rightarrow> nat \<Rightarrow> jsval list \<Rightarrow> bool" where
  "holds st r xs = (r < length st \<and> st ! r = ArrayCell xs)"

definition represents :: "store \<Rightarrow> nat \<Rightarrow> builder \<Rightarrow> bool" where
  "represents st this b =
     (this < length st \<and>
      (case st ! this of
         ArrayCell _ \<Rightarrow> False
       | BuilderCell ob \<Rightarrow>
           elem_slot ob = elem b \<and> idTag_slot ob = idTag b \<and> pseudoElem_slot ob = pseudoElem b \<and>
           distinct [this, classes_slot ob, attributes_slot ob, pseudoClasses_slot ob, order_slot ob] \<and>
           holds st (classes_slot ob) (map VStr (classes b)) \<and>
           holds st (attributes_slot ob) (map VStr (attributes b)) \<and>
           holds st (pseudoClasses_slot ob) (map VStr (pseudoClasses b)) \<and>
           holds st (order_slot ob) (map VNum (order b))))"

fun thrown_or :: "'a \<Rightarrow> error option \<Rightarrow> 'a completion" where
  "thrown_or x None = Returns x"
| "thrown_or x (Some e) = Throws e"

fun store_outcome :: "nat \<Rightarrow> outcome \<Rightarrow> returned completion" where
  "store_outcome this ReturnedThis = Returns (This this)"
| "store_outcome this (ReturnedString s) = Returns (Text s)"
| "store_outcome this (Threw e) = Throws e"

text \<open>
  What the reduce of \<open>stringify\<close> keeps, as a function of the store it starts in: the
  values whose length is positive and whose name is not \<^verbatim>\<open>order\<close>.
\<close>

fun positive :: "store \<Rightarrow> jsval \<Rightarrow> bool" where
  "positive st (VStr s) = (s \<noteq> [])"
| "positive st (VNum n) = False"
| "positive st (VRef r) = (case st ! r of ArrayCell xs \<Rightarrow> xs \<noteq> [] | BuilderCell _ \<Rightarrow> False)"

definition kept :: "store \<Rightarrow> (string \<times> jsval) list \<Rightarrow> jsval list" where
  "kept st es = map snd (filter (\<lambda>el. positive st (snd el) \<and> fst el \<noteq> ''order'') es)"

fun valid_ref :: "store \<Rightarrow> nat \<Rightarrow> jsval \<Rightarrow> bool" where
  "valid_ref st res (VRef r) = (r < length st \<and> r \<noteq> res)"
| "valid_ref st res v = True"

subsection \<open>getJSON and fromJSON\<close>

text \<open>
  \<^verbatim>\<open>getJSON\<close> and \<^verbatim>\<open>fromJSON\<close> only call \<^verbatim>\<open>JSON.stringify\<close>, \<^verbatim>\<open>JSON.parse\<close> and
  \<^verbatim>\<open>Object.setPrototypeOf\<close>, which are the runtime's and not code of the repository.
  The specification names them as collaborators: a serializer that produces standard
  JSON text with the keys in enumeration order, a parser that produces a plain
  structured value or fails on invalid text, and a primitive that attaches a behaviour
  set to a value without copying its data.
\<close>

















section \<open>Properties\<close>

subsection \<open>What the methods compute\<close>

lemma toString_comp_StrElem: "toString \<circ> StrElem = (\<lambda>s. s)"
  by (rule ext) simp

lemma Builder_stringify_fields:
  "Builder_stringify this =
     elem this @ idTag this @ concat (classes this) @ concat (attributes this) @
     concat (pseudoClasses this) @ pseudoElem this"
  by (simp add: Builder_stringify_def entries_def stringify_reduce_def flat_def join_def
      toString_comp_StrElem)

lemma checkOrder_reduce_sorted:
  "checkOrder_reduce res vals =
     (if sorted (res # vals) then Inr (last (res # vals)) else Inl OrderViolationError)"
  by (induction vals arbitrary: res) auto

lemma Builder_checkOrder_sorted:
  "Builder_checkOrder this =
     (if sorted (order this) then Inr (last (0 # order this)) else Inl OrderViolationError)"
  by (simp add: Builder_checkOrder_def checkOrder_reduce_sorted)

lemma push_and_check_eq:
  "push_and_check r this =
     (this\<lparr>order := order this @ [r]\<rparr>,
      if sorted (order this @ [r]) then None else Some OrderViolationError)"
  by (simp add: push_and_check_def Builder_checkOrder_sorted Let_def)

lemmas fragment_defs =
  Builder_element_def Builder_id_def Builder_class_def Builder_attr_def
  Builder_pseudoClass_def Builder_pseudoElement_def push_and_check_eq

lemma apply_call_order:
  "order (fst (apply_call c this)) =
     (if duplicate_guard c this then order this else order this @ [rank c])"
  by (cases c) (simp_all add: fragment_defs)

lemma apply_call_error:
  "snd (apply_call c this) =
     (if duplicate_guard c this then Some DuplicateFragmentError
      else if sorted (order this @ [rank c]) then None
      else Some OrderViolationError)"
  by (cases c) (simp_all add: fragment_defs)

lemma apply_call_ok_fields:
  assumes "apply_call c this = (this', None)"
  shows "elem this' = elem this @ concat (fragments 1 [c])"
    and "idTag this' = idTag this @ concat (fragments 2 [c])"
    and "classes this' = classes this @ fragments 3 [c]"
    and "attributes this' = attributes this @ fragments 4 [c]"
    and "pseudoClasses this' = pseudoClasses this @ fragments 5 [c]"
    and "pseudoElem this' = pseudoElem this @ concat (fragments 6 [c])"
  using assms
  by (cases c; auto simp: fragment_defs fragments_def Builder_isAlreadyDefined_def
      split: if_splits)+

lemma fragments_Cons: "fragments r (c # cs) = fragments r [c] @ fragments r cs"
  by (simp add: fragments_def)

lemma chain_ok_fields:
  assumes "chain cs this = (this', None)"
  shows "elem this' = elem this @ concat (fragments 1 cs)
       \<and> idTag this' = idTag this @ concat (fragments 2 cs)
       \<and> classes this' = classes this @ fragments 3 cs
       \<and> attributes this' = attributes this @ fragments 4 cs
       \<and> pseudoClasses this' = pseudoClasses this @ fragments 5 cs
       \<and> pseudoElem this' = pseudoElem this @ concat (fragments 6 cs)"
  using assms
proof (induction cs arbitrary: this)
  case Nil
  then show ?case by (simp add: fragments_def)
next
  case (Cons c cs)
  obtain this1 e where step: "apply_call c this = (this1, e)"
    by (cases "apply_call c this")
  with Cons.prems have e: "e = None" and rest: "chain cs this1 = (this', None)"
    by (auto split: option.splits)
  from step e have ok: "apply_call c this = (this1, None)"
    by simp
  show ?case
    using Cons.IH [OF rest] apply_call_ok_fields [OF ok]
    by (simp add: fragments_Cons [of _ c cs])
qed

lemma chain_stringify:
  assumes "chain cs this = (this', None)"
  shows "Builder_stringify this' =
     elem this @ concat (fragments 1 cs) @ idTag this @ concat (fragments 2 cs) @
     concat (classes this) @ concat (fragments 3 cs) @
     concat (attributes this) @ concat (fragments 4 cs) @
     concat (pseudoClasses this) @ concat (fragments 5 cs) @
     pseudoElem this @ concat (fragments 6 cs)"
  using chain_ok_fields [OF assms] by (simp add: Builder_stringify_fields)

lemma sorted_snoc_iff: "sorted (xs @ [r]) \<longleftrightarrow> sorted xs \<and> (\<forall>x\<in>set xs. x \<le> (r::nat))"
  by (auto simp: sorted_append)

lemmas eval_defs = new_Builder_def fragment_defs Builder_isAlreadyDefined_def catching_def

subsection \<open>Rendering\<close>

text \<open>
  Claim C1. For every sequence of fragment-adding calls on a new builder that completes
  without error, \<open>stringify\<close> returns the concatenation, in the fixed category order
  (element, id, classes, attributes, pseudo-classes, pseudo-element) and within a
  category in call order, of the formatted strings of the fragments, with no separator.
  The witness is the scenario \<^verbatim>\<open>id('main').class('container').class('editable')\<close>.
\<close>

theorem stringify_renders_categories_in_order:
  assumes "chain cs new_Builder = (this, None)"
  shows "Builder_stringify this = spec_render cs"
  using chain_stringify [OF assms] by (simp add: spec_render_def new_Builder_def)

theorem stringify_renders_categories_in_order_witness:
  "snd (chain [Id ''main'', Class ''container'', Class ''editable''] new_Builder) = None \<and>
   Builder_stringify (fst (chain [Id ''main'', Class ''container'', Class ''editable''] new_Builder))
     = ''#main.container.editable''"
proof -
  let ?cs = "[Id ''main'', Class ''container'', Class ''editable'']"
  have run: "chain ?cs new_Builder = (fst (chain ?cs new_Builder), None)"
    by (simp add: new_Builder_def fragment_defs Builder_isAlreadyDefined_def)
  have "Builder_stringify (fst (chain ?cs new_Builder)) = spec_render ?cs"
    using stringify_renders_categories_in_order [OF run] .
  moreover have "spec_render ?cs = ''#main.container.editable''"
    by (simp add: spec_render_def fragments_def)
  ultimately show ?thesis
    using run by (metis snd_conv)
qed

subsection \<open>stringify on the store\<close>

lemma length_positive_valid:
  "valid_ref st res v \<Longrightarrow> length_positive st v = (st, Returns (positive st v))"
  by (cases v) (auto split: cell.splits)

lemma positive_update:
  "valid_ref st res v \<Longrightarrow> positive (st[res := c]) v = positive st v"
  by (cases v) auto

lemma kept_update:
  "\<forall>el\<in>set es. valid_ref st res (snd el) \<Longrightarrow> kept (st[res := c]) es = kept st es"
  by (induction es) (auto simp: kept_def positive_update)

lemma kept_Cons:
  "kept st (el # els) =
     (if positive st (snd el) \<and> fst el \<noteq> ''order'' then [snd el] else []) @ kept st els"
  by (simp add: kept_def)

lemma array_push_holds:
  "res < length st \<Longrightarrow> st ! res = ArrayCell acc \<Longrightarrow>
   array_push st res v = (st[res := ArrayCell (acc @ [v])], Returns ())"
  by (simp add: array_push_def read_array_def)

lemma store_reduce_kept:
  assumes "res < length st" and "st ! res = ArrayCell acc"
    and "\<forall>el\<in>set es. valid_ref st res (snd el)"
  shows "store_reduce res st es = (st[res := ArrayCell (acc @ kept st es)], Returns ())"
  using assms
proof (induction es arbitrary: st acc)
  case Nil
  then have "st[res := ArrayCell acc] = st"
    by (metis list_update_id)
  then show ?case
    by (simp add: kept_def)
next
  case (Cons el els)
  from Cons.prems have el: "valid_ref st res (snd el)"
    and els: "\<forall>el\<in>set els. valid_ref st res (snd el)"
    by simp_all
  show ?case
  proof (cases "positive st (snd el) \<and> fst el \<noteq> ''order''")
    case False
    then have "store_stringify_step res st el = (st, Returns ())"
      by (auto simp: store_stringify_step_def length_positive_valid [OF el])
    moreover from False have "kept st (el # els) = kept st els"
      by (auto simp: kept_Cons)
    ultimately show ?thesis
      using Cons.IH [OF Cons.prems(1,2) els] by simp
  next
    case True
    let ?st = "st[res := ArrayCell (acc @ [snd el])]"
    from True have step: "store_stringify_step res st el = (?st, Returns ())"
      by (simp add: store_stringify_step_def length_positive_valid [OF el]
          array_push_holds [OF Cons.prems(1,2)])
    have "\<forall>el\<in>set els. valid_ref ?st res (snd el)"
    proof
      fix e assume "e \<in> set els"
      with els have "valid_ref st res (snd e)" by blast
      then show "valid_ref ?st res (snd e)" by (cases "snd e") auto
    qed
    moreover have "res < length ?st" and "?st ! res = ArrayCell (acc @ [snd el])"
      using Cons.prems(1) by simp_all
    ultimately have "store_reduce res ?st els =
        (?st[res := ArrayCell ((acc @ [snd el]) @ kept ?st els)], Returns ())"
      by (intro Cons.IH)
    with step True show ?thesis
      by (simp add: kept_Cons kept_update [OF els])
  qed
qed


lemma join_values_strings: "join_values (map VStr ss) = Returns (concat ss)"
  by (induction ss) simp_all

lemma representsD:
  assumes "represents st this b"
  obtains ob where "this < length st" and "st ! this = BuilderCell ob"
    and "elem_slot ob = elem b" and "idTag_slot ob = idTag b" and "pseudoElem_slot ob = pseudoElem b"
    and "distinct [this, classes_slot ob, attributes_slot ob, pseudoClasses_slot ob, order_slot ob]"
    and "holds st (classes_slot ob) (map VStr (classes b))"
    and "holds st (attributes_slot ob) (map VStr (attributes b))"
    and "holds st (pseudoClasses_slot ob) (map VStr (pseudoClasses b))"
    and "holds st (order_slot ob) (map VNum (order b))"
  using assms unfolding represents_def by (auto split: cell.splits)

lemma flat_kept_string:
  "k \<noteq> ''order'' \<Longrightarrow>
   concat (map (flat_value st') (kept st [(k, VStr s)])) = map VStr (if s = [] then [] else [s])"
  by (simp add: kept_def)

lemma flat_kept_array:
  assumes "k \<noteq> ''order''" and "r < length st'" and "st ! r = ArrayCell (map VStr ss)"
    and "st' ! r = ArrayCell (map VStr ss)"
  shows "concat (map (flat_value st') (kept st [(k, VRef r)])) = map VStr ss"
  using assms by (simp add: kept_def)

lemma flat_kept_order: "concat (map (flat_value st') (kept st [(''order'', v)])) = []"
  by (simp add: kept_def)

lemma kept_append: "kept st (es @ es') = kept st es @ kept st es'"
  by (simp add: kept_def)

lemma store_stringify_represents:
  assumes "represents st this b"
  shows "\<exists>kept_values flattened.
     store_stringify st this =
       (st @ [ArrayCell kept_values, ArrayCell flattened], Returns (Builder_stringify b))"
proof -
  from assms obtain ob where cell: "this < length st" "st ! this = BuilderCell ob"
    and slots: "elem_slot ob = elem b" "idTag_slot ob = idTag b" "pseudoElem_slot ob = pseudoElem b"
    and arrays: "holds st (classes_slot ob) (map VStr (classes b))"
      "holds st (attributes_slot ob) (map VStr (attributes b))"
      "holds st (pseudoClasses_slot ob) (map VStr (pseudoClasses b))"
      "holds st (order_slot ob) (map VNum (order b))"
    by (rule representsD)
  let ?res = "length st"
  let ?st1 = "st @ [ArrayCell []]"
  let ?es = "store_entries ob"
  let ?st2 = "st @ [ArrayCell (kept ?st1 ?es)]"
  let ?flat = "concat (map (flat_value ?st2) (kept ?st1 ?es))"
  have read: "read_builder st this = (st, Returns ob)"
    using cell by (simp add: read_builder_def)
  have valid: "\<forall>el\<in>set ?es. valid_ref ?st1 ?res (snd el)"
    using arrays by (simp add: store_entries_def holds_def)
  have "store_reduce ?res ?st1 ?es = (?st1[?res := ArrayCell ([] @ kept ?st1 ?es)], Returns ())"
    using valid by (intro store_reduce_kept) simp_all
  then have reduce: "store_reduce ?res ?st1 ?es = (?st2, Returns ())"
    by simp
  have flat: "store_flat ?st2 ?res = (?st2 @ [ArrayCell ?flat], Returns (length ?st2))"
    by (simp add: store_flat_def read_array_def nth_append)
  have join: "store_join (?st2 @ [ArrayCell ?flat]) (length ?st2) =
      (?st2 @ [ArrayCell ?flat], join_values ?flat)"
    by (simp add: store_join_def read_array_def nth_append)
  define st2 where "st2 = ?st2"
  have old: "\<And>r. r < length st \<Longrightarrow> st2 ! r = st ! r" "\<And>r. r < length st \<Longrightarrow> r < length st2"
    "\<And>r. r < length st \<Longrightarrow> ?st1 ! r = st ! r"
    by (simp_all add: st2_def nth_append)
  have split: "?es = [(''elem'', VStr (elem b))] @ [(''idTag'', VStr (idTag b))] @
      [(''classes'', VRef (classes_slot ob))] @ [(''attributes'', VRef (attributes_slot ob))] @
      [(''pseudoClasses'', VRef (pseudoClasses_slot ob))] @ [(''pseudoElem'', VStr (pseudoElem b))] @
      [(''order'', VRef (order_slot ob))]"
    by (simp add: store_entries_def slots)
  have c: "concat (map (flat_value st2) (kept ?st1 [(''classes'', VRef (classes_slot ob))]))
      = map VStr (classes b)"
    using arrays(1) by (intro flat_kept_array) (simp_all add: holds_def old)
  have a: "concat (map (flat_value st2) (kept ?st1 [(''attributes'', VRef (attributes_slot ob))]))
      = map VStr (attributes b)"
    using arrays(2) by (intro flat_kept_array) (simp_all add: holds_def old)
  have p: "concat (map (flat_value st2) (kept ?st1 [(''pseudoClasses'', VRef (pseudoClasses_slot ob))]))
      = map VStr (pseudoClasses b)"
    using arrays(3) by (intro flat_kept_array) (simp_all add: holds_def old)
  have "concat (map (flat_value st2) (kept ?st1 ?es)) = map VStr
      ((if elem b = [] then [] else [elem b]) @ (if idTag b = [] then [] else [idTag b]) @
       classes b @ attributes b @ pseudoClasses b @
       (if pseudoElem b = [] then [] else [pseudoElem b]))"
    unfolding split kept_append map_append concat_append c a p flat_kept_order
    by (simp add: flat_kept_string)
  then have "join_values ?flat = Returns (Builder_stringify b)"
    unfolding st2_def by (simp only: join_values_strings) (simp add: Builder_stringify_fields)
  with read reduce flat join show ?thesis
    by (simp add: store_stringify_def)
qed

lemma represents_extend: "represents st this b \<Longrightarrow> represents (st @ ext) this b"
  by (auto simp: represents_def holds_def nth_append split: cell.splits)

lemma store_checkOrder_reduce_numbers:
  "store_checkOrder_reduce res (map VNum ns) =
     (case checkOrder_reduce res ns of Inl e \<Rightarrow> Throws e | Inr x \<Rightarrow> Returns x)"
  by (induction ns arbitrary: res) simp_all

lemma store_push_and_check_represents:
  assumes "represents st this b"
  shows "\<exists>st'. store_push_and_check n st this = (st', thrown_or this (snd (push_and_check n b)))
           \<and> represents st' this (fst (push_and_check n b)) \<and> length st' = length st"
proof -
  from assms obtain ob where cell: "this < length st" "st ! this = BuilderCell ob"
    and slots: "elem_slot ob = elem b" "idTag_slot ob = idTag b" "pseudoElem_slot ob = pseudoElem b"
    and apart: "distinct [this, classes_slot ob, attributes_slot ob, pseudoClasses_slot ob, order_slot ob]"
    and arrays: "holds st (classes_slot ob) (map VStr (classes b))"
      "holds st (attributes_slot ob) (map VStr (attributes b))"
      "holds st (pseudoClasses_slot ob) (map VStr (pseudoClasses b))"
      "holds st (order_slot ob) (map VNum (order b))"
    by (rule representsD)
  let ?st = "st[order_slot ob := ArrayCell (map VNum (order b @ [n]))]"
  have read: "read_builder st this = (st, Returns ob)"
    using cell by (simp add: read_builder_def)
  have push: "array_push st (order_slot ob) (VNum n) = (?st, Returns ())"
    using arrays(4) by (simp add: array_push_holds holds_def)
  have check: "store_checkOrder ?st this =
      (?st, case checkOrder_reduce 0 (order b @ [n]) of Inl e \<Rightarrow> Throws e | Inr x \<Rightarrow> Returns x)"
  proof -
    from apart have "order_slot ob \<noteq> this"
      by auto
    with cell have "read_builder ?st this = (?st, Returns ob)"
      by (simp add: read_builder_def)
    moreover from arrays(4)
    have "read_array ?st (order_slot ob) = (?st, Returns (map VNum (order b @ [n])))"
      by (simp add: read_array_def holds_def)
    ultimately show ?thesis
      by (simp add: store_checkOrder_def store_checkOrder_reduce_numbers del: map_append)
  qed
  have run: "store_push_and_check n st this = (?st, thrown_or this (snd (push_and_check n b)))"
    by (simp add: store_push_and_check_def read push check push_and_check_def Builder_checkOrder_def
        Let_def del: map_append split: sum.splits)
  have "represents ?st this (b\<lparr>order := order b @ [n]\<rparr>)"
    using cell slots apart arrays
    by (auto simp: represents_def holds_def)
  then have "represents ?st this (fst (push_and_check n b))"
    by (simp add: push_and_check_eq)
  with run show ?thesis
    by simp
qed

lemma represents_read:
  assumes "represents st this b"
  obtains ob where "read_builder st this = (st, Returns ob)" and "st ! this = BuilderCell ob"
  using assms by (auto elim!: representsD simp: read_builder_def)

lemma represents_assign_elem:
  assumes "represents st this b" and "st ! this = BuilderCell ob"
  shows "represents (st[this := BuilderCell (ob\<lparr>elem_slot := v\<rparr>)]) this (b\<lparr>elem := v\<rparr>)"
  using assms by (auto simp: represents_def holds_def)

lemma represents_assign_idTag:
  assumes "represents st this b" and "st ! this = BuilderCell ob"
  shows "represents (st[this := BuilderCell (ob\<lparr>idTag_slot := v\<rparr>)]) this (b\<lparr>idTag := v\<rparr>)"
  using assms by (auto simp: represents_def holds_def)

lemma represents_assign_pseudoElem:
  assumes "represents st this b" and "st ! this = BuilderCell ob"
  shows "represents (st[this := BuilderCell (ob\<lparr>pseudoElem_slot := v\<rparr>)]) this
     (b\<lparr>pseudoElem := v\<rparr>)"
  using assms by (auto simp: represents_def holds_def)

lemma represents_push_classes:
  assumes "represents st this b" and "st ! this = BuilderCell ob"
  shows "array_push st (classes_slot ob) (VStr s) =
           (st[classes_slot ob := ArrayCell (map VStr (classes b @ [s]))], Returns ())"
    and "represents (st[classes_slot ob := ArrayCell (map VStr (classes b @ [s]))]) this
           (b\<lparr>classes := classes b @ [s]\<rparr>)"
  using assms by (auto simp: represents_def holds_def array_push_holds)

lemma represents_push_attributes:
  assumes "represents st this b" and "st ! this = BuilderCell ob"
  shows "array_push st (attributes_slot ob) (VStr s) =
           (st[attributes_slot ob := ArrayCell (map VStr (attributes b @ [s]))], Returns ())"
    and "represents (st[attributes_slot ob := ArrayCell (map VStr (attributes b @ [s]))]) this
           (b\<lparr>attributes := attributes b @ [s]\<rparr>)"
  using assms by (auto simp: represents_def holds_def array_push_holds)

lemma represents_push_pseudoClasses:
  assumes "represents st this b" and "st ! this = BuilderCell ob"
  shows "array_push st (pseudoClasses_slot ob) (VStr s) =
           (st[pseudoClasses_slot ob := ArrayCell (map VStr (pseudoClasses b @ [s]))], Returns ())"
    and "represents (st[pseudoClasses_slot ob := ArrayCell (map VStr (pseudoClasses b @ [s]))]) this
           (b\<lparr>pseudoClasses := pseudoClasses b @ [s]\<rparr>)"
  using assms by (auto simp: represents_def holds_def array_push_holds)

lemma store_isAlreadyDefined_represents:
  assumes "represents st this b"
  shows "store_isAlreadyDefined ''element'' None st this =
           (st, Returns (Builder_isAlreadyDefined ''element'' None b))"
    and "store_isAlreadyDefined ''id'' None st this =
           (st, Returns (Builder_isAlreadyDefined ''id'' None b))"
    and "store_isAlreadyDefined ''pseudoElement'' None st this =
           (st, Returns (Builder_isAlreadyDefined ''pseudoElement'' None b))"
  using assms
  by (auto elim!: representsD
      simp: store_isAlreadyDefined_def Builder_isAlreadyDefined_def read_builder_def)

lemma store_call_represents:
  assumes "represents st this b"
  shows "\<exists>st'. store_invoke (Fragment c) st this =
             (st', case snd (apply_call c b) of None \<Rightarrow> Returns (This this) | Some e \<Rightarrow> Throws e)
           \<and> represents st' this (fst (apply_call c b)) \<and> length st' = length st"
proof -
  from assms obtain ob where read: "read_builder st this = (st, Returns ob)"
    and cell: "st ! this = BuilderCell ob"
    by (rule represents_read)
  have len: "this < length st"
    using assms by (simp add: represents_def)
  have assign: "\<And>f. assign f st this = (st[this := BuilderCell (f ob)], Returns ())"
    by (simp add: assign_def read)
  show ?thesis
  proof (cases c)
    case (Element v)
    show ?thesis
    proof (cases "Builder_isAlreadyDefined ''element'' None b")
      case True
      with assms show ?thesis
        by (simp add: Element store_element_def Builder_element_def
            store_isAlreadyDefined_represents)
    next
      case False
      from store_push_and_check_represents [OF represents_assign_elem [OF assms cell, of v], of 1]
      obtain st' where "store_push_and_check 1 (st[this := BuilderCell (ob\<lparr>elem_slot := v\<rparr>)]) this
            = (st', thrown_or this (snd (push_and_check 1 (b\<lparr>elem := v\<rparr>))))"
        and "represents st' this (fst (push_and_check 1 (b\<lparr>elem := v\<rparr>)))"
        and "length st' = length st"
        by auto
      with False assms show ?thesis
        by (cases "snd (push_and_check 1 (b\<lparr>elem := v\<rparr>))")
          (simp_all add: Element store_element_def Builder_element_def
            store_isAlreadyDefined_represents assign)
    qed
  next
    case (Id v)
    show ?thesis
    proof (cases "Builder_isAlreadyDefined ''id'' None b")
      case True
      with assms show ?thesis
        by (simp add: Id store_id_def Builder_id_def store_isAlreadyDefined_represents)
    next
      case False
      from store_push_and_check_represents
        [OF represents_assign_idTag [OF assms cell, of "''#'' @ v"], of 2]
      obtain st' where "store_push_and_check 2 (st[this := BuilderCell (ob\<lparr>idTag_slot := ''#'' @ v\<rparr>)]) this
            = (st', thrown_or this (snd (push_and_check 2 (b\<lparr>idTag := ''#'' @ v\<rparr>))))"
        and "represents st' this (fst (push_and_check 2 (b\<lparr>idTag := ''#'' @ v\<rparr>)))"
        and "length st' = length st"
        by auto
      with False assms show ?thesis
        by (cases "snd (push_and_check 2 (b\<lparr>idTag := ''#'' @ v\<rparr>))")
          (simp_all add: Id store_id_def Builder_id_def store_isAlreadyDefined_represents assign)
    qed
  next
    case (PseudoElement v)
    show ?thesis
    proof (cases "Builder_isAlreadyDefined ''pseudoElement'' None b")
      case True
      with assms show ?thesis
        by (simp add: PseudoElement store_pseudoElement_def Builder_pseudoElement_def
            store_isAlreadyDefined_represents)
    next
      case False
      from store_push_and_check_represents
        [OF represents_assign_pseudoElem [OF assms cell, of "''::'' @ v"], of 6]
      obtain st' where "store_push_and_check 6
              (st[this := BuilderCell (ob\<lparr>pseudoElem_slot := ''::'' @ v\<rparr>)]) this
            = (st', thrown_or this (snd (push_and_check 6 (b\<lparr>pseudoElem := ''::'' @ v\<rparr>))))"
        and "represents st' this (fst (push_and_check 6 (b\<lparr>pseudoElem := ''::'' @ v\<rparr>)))"
        and "length st' = length st"
        by auto
      with False assms show ?thesis
        by (cases "snd (push_and_check 6 (b\<lparr>pseudoElem := ''::'' @ v\<rparr>))")
          (simp_all add: PseudoElement store_pseudoElement_def Builder_pseudoElement_def
            store_isAlreadyDefined_represents assign)
    qed
  next
    case (Class v)
    note pushed = represents_push_classes [OF assms cell, of "''.'' @ v"]
    from store_push_and_check_represents [OF pushed(2), of 3]
    obtain st' where "store_push_and_check 3
            (st[classes_slot ob := ArrayCell (map VStr (classes b @ [''.'' @ v]))]) this
          = (st', thrown_or this (snd (push_and_check 3 (b\<lparr>classes := classes b @ [''.'' @ v]\<rparr>))))"
      and "represents st' this (fst (push_and_check 3 (b\<lparr>classes := classes b @ [''.'' @ v]\<rparr>)))"
      and "length st' = length st"
      by auto
    then show ?thesis
      by (cases "snd (push_and_check 3 (b\<lparr>classes := classes b @ [''.'' @ v]\<rparr>))")
        (simp_all add: Class store_class_def Builder_class_def read
          represents_push_classes(1) [OF assms cell])
  next
    case (Attr v)
    note pushed = represents_push_attributes [OF assms cell, of "''['' @ v @ '']''"]
    from store_push_and_check_represents [OF pushed(2), of 4]
    obtain st' where "store_push_and_check 4
            (st[attributes_slot ob := ArrayCell (map VStr (attributes b @ [''['' @ v @ '']'']))]) this
          = (st', thrown_or this
              (snd (push_and_check 4 (b\<lparr>attributes := attributes b @ [''['' @ v @ '']'']\<rparr>))))"
      and "represents st' this
          (fst (push_and_check 4 (b\<lparr>attributes := attributes b @ [''['' @ v @ '']'']\<rparr>)))"
      and "length st' = length st"
      by auto
    then show ?thesis
      by (cases "snd (push_and_check 4 (b\<lparr>attributes := attributes b @ [''['' @ v @ '']'']\<rparr>))")
        (simp_all add: Attr store_attr_def Builder_attr_def read
          represents_push_attributes(1) [OF assms cell])
  next
    case (PseudoClass v)
    note pushed = represents_push_pseudoClasses [OF assms cell, of "'':'' @ v"]
    from store_push_and_check_represents [OF pushed(2), of 5]
    obtain st' where "store_push_and_check 5
            (st[pseudoClasses_slot ob := ArrayCell (map VStr (pseudoClasses b @ ['':'' @ v]))]) this
          = (st', thrown_or this
              (snd (push_and_check 5 (b\<lparr>pseudoClasses := pseudoClasses b @ ['':'' @ v]\<rparr>))))"
      and "represents st' this
          (fst (push_and_check 5 (b\<lparr>pseudoClasses := pseudoClasses b @ ['':'' @ v]\<rparr>)))"
      and "length st' = length st"
      by auto
    then show ?thesis
      by (cases "snd (push_and_check 5 (b\<lparr>pseudoClasses := pseudoClasses b @ ['':'' @ v]\<rparr>))")
        (simp_all add: PseudoClass store_pseudoClass_def Builder_pseudoClass_def read
          represents_push_pseudoClasses(1) [OF assms cell])
  qed
qed

lemma store_new_Builder_represents:
  "represents (fst (store_new_Builder st)) (snd (store_new_Builder st)) new_Builder"
  by (simp add: store_new_Builder_def represents_def holds_def new_Builder_def nth_append Let_def)

lemma store_invoke_represents:
  assumes "represents st this b"
  shows "snd (store_invoke m st this) = store_outcome this (snd (invoke m b))
       \<and> represents (fst (store_invoke m st this)) this (fst (invoke m b))"
proof (cases m)
  case (Fragment c)
  from store_call_represents [OF assms, of c] show ?thesis
    by (auto simp: Fragment split: prod.splits option.splits)
next
  case Stringify
  from store_stringify_represents [OF assms] obtain kept_values flattened
    where "store_stringify st this =
      (st @ [ArrayCell kept_values, ArrayCell flattened], Returns (Builder_stringify b))"
    by blast
  with represents_extend [OF assms, of "[ArrayCell kept_values, ArrayCell flattened]"]
  show ?thesis
    by (simp add: Stringify)
qed

lemma store_invoke_all_represents:
  assumes "represents st this b"
  shows "snd (store_invoke_all ms st this) = map (store_outcome this) (snd (invoke_all ms b))
       \<and> represents (fst (store_invoke_all ms st this)) this (fst (invoke_all ms b))"
  using assms
proof (induction ms arbitrary: st b)
  case Nil
  then show ?case by simp
next
  case (Cons m ms)
  from store_invoke_represents [OF Cons.prems, of m]
  have now: "snd (store_invoke m st this) = store_outcome this (snd (invoke m b))"
    and next_state: "represents (fst (store_invoke m st this)) this (fst (invoke m b))"
    by blast+
  from Cons.IH [OF next_state] now show ?case
    by (simp add: case_prod_beta)
qed

lemma store_stringify_keeps_cells:
  assumes "represents st this b"
  shows "snd (store_invoke_all (replicate n Stringify) st this) =
           replicate n (Returns (Text (Builder_stringify b)))
       \<and> take (length st) (fst (store_invoke_all (replicate n Stringify) st this)) = st"
  using assms
proof (induction n arbitrary: st)
  case 0
  then show ?case by simp
next
  case (Suc n)
  from store_stringify_represents [OF Suc.prems] obtain kept_values flattened
    where run: "store_stringify st this =
      (st @ [ArrayCell kept_values, ArrayCell flattened], Returns (Builder_stringify b))"
    by blast
  let ?st = "st @ [ArrayCell kept_values, ArrayCell flattened]"
  have "represents ?st this b"
    using Suc.prems by (rule represents_extend)
  from Suc.IH [OF this]
  have results: "snd (store_invoke_all (replicate n Stringify) ?st this) =
      replicate n (Returns (Text (Builder_stringify b)))"
    and cells: "take (length ?st) (fst (store_invoke_all (replicate n Stringify) ?st this)) = ?st"
    by blast+
  have "take (length st) (fst (store_invoke_all (replicate n Stringify) ?st this)) =
      take (length st) (take (length ?st) (fst (store_invoke_all (replicate n Stringify) ?st this)))"
    by simp
  also have "\<dots> = st"
    unfolding cells by simp
  finally show ?case
    using run results by (simp add: case_prod_beta)
qed

text \<open>
  Claim C8. Take a new builder in any store and any calls of its methods, each caught
  when it throws. In the store they leave, any number of further \<open>stringify\<close> calls
  all return, none throws, and each returns the same string, the rendering of the
  builder's fields; and every cell that was in the store before them, the builder and
  its arrays among them, is afterwards what it was: the calls only add the arrays they
  allocate.
\<close>

theorem stringify_never_raises_nor_mutates:
  "snd (store_invoke_all (replicate n Stringify)
          (fst (store_invoke_all ops (fst (store_new_Builder st0)) (snd (store_new_Builder st0))))
          (snd (store_new_Builder st0))) =
     replicate n (Returns (Text (Builder_stringify (fst (invoke_all ops new_Builder)))))
   \<and> take (length (fst (store_invoke_all ops (fst (store_new_Builder st0)) (snd (store_new_Builder st0)))))
       (fst (store_invoke_all (replicate n Stringify)
          (fst (store_invoke_all ops (fst (store_new_Builder st0)) (snd (store_new_Builder st0))))
          (snd (store_new_Builder st0)))) =
     fst (store_invoke_all ops (fst (store_new_Builder st0)) (snd (store_new_Builder st0)))"
proof -
  let ?a = "snd (store_new_Builder st0)"
  let ?st = "fst (store_invoke_all ops (fst (store_new_Builder st0)) ?a)"
  have "represents (fst (store_new_Builder st0)) ?a new_Builder"
    by (rule store_new_Builder_represents)
  then have "represents ?st ?a (fst (invoke_all ops new_Builder))"
    using store_invoke_all_represents by blast
  then show ?thesis
    by (rule store_stringify_keeps_cells)
qed

text \<open>
  An instance: after \<^verbatim>\<open>class('c')\<close> and an \<^verbatim>\<open>id('x')\<close> that threw, two calls of
  \<open>stringify\<close> both return \<open>#x.c\<close>, and the five cells of the builder are as the
  failed call left them.
\<close>

theorem stringify_never_raises_nor_mutates_witness:
  "store_invoke_all [Fragment (Class ''c''), Fragment (Id ''x'')] (fst (store_new_Builder [])) 0 =
     ([BuilderCell \<lparr>elem_slot = '''', idTag_slot = ''#x'', classes_slot = 1, attributes_slot = 2,
         pseudoClasses_slot = 3, pseudoElem_slot = '''', order_slot = 4\<rparr>,
       ArrayCell [VStr ''.c''], ArrayCell [], ArrayCell [], ArrayCell [VNum 3, VNum 2]],
      [Returns (This 0), Throws OrderViolationError]) \<and>
   snd (store_invoke_all [Stringify, Stringify]
          [BuilderCell \<lparr>elem_slot = '''', idTag_slot = ''#x'', classes_slot = 1, attributes_slot = 2,
             pseudoClasses_slot = 3, pseudoElem_slot = '''', order_slot = 4\<rparr>,
           ArrayCell [VStr ''.c''], ArrayCell [], ArrayCell [], ArrayCell [VNum 3, VNum 2]] 0) =
     [Returns (Text ''#x.c''), Returns (Text ''#x.c'')] \<and>
   take 5 (fst (store_invoke_all [Stringify, Stringify]
          [BuilderCell \<lparr>elem_slot = '''', idTag_slot = ''#x'', classes_slot = 1, attributes_slot = 2,
             pseudoClasses_slot = 3, pseudoElem_slot = '''', order_slot = 4\<rparr>,
           ArrayCell [VStr ''.c''], ArrayCell [], ArrayCell [], ArrayCell [VNum 3, VNum 2]] 0)) =
     [BuilderCell \<lparr>elem_slot = '''', idTag_slot = ''#x'', classes_slot = 1, attributes_slot = 2,
        pseudoClasses_slot = 3, pseudoElem_slot = '''', order_slot = 4\<rparr>,
      ArrayCell [VStr ''.c''], ArrayCell [], ArrayCell [], ArrayCell [VNum 3, VNum 2]]"
proof -
  let ?ops = "[Fragment (Class ''c''), Fragment (Id ''x'')]"
  let ?st = "[BuilderCell \<lparr>elem_slot = '''', idTag_slot = ''#x'', classes_slot = 1, attributes_slot = 2,
         pseudoClasses_slot = 3, pseudoElem_slot = '''', order_slot = 4\<rparr>,
       ArrayCell [VStr ''.c''], ArrayCell [], ArrayCell [], ArrayCell [VNum 3, VNum 2]]"
  have new: "store_new_Builder [] =
      ([BuilderCell \<lparr>elem_slot = '''', idTag_slot = '''', classes_slot = 1, attributes_slot = 2,
         pseudoClasses_slot = 3, pseudoElem_slot = '''', order_slot = 4\<rparr>,
        ArrayCell [], ArrayCell [], ArrayCell [], ArrayCell []], 0)"
    by (simp add: store_new_Builder_def)
  have reached: "store_invoke_all ?ops (fst (store_new_Builder [])) 0 =
      (?st, [Returns (This 0), Throws OrderViolationError])"
    unfolding new
    by (simp add: store_class_def store_id_def store_isAlreadyDefined_def store_push_and_check_def
        store_checkOrder_def assign_def array_push_def read_builder_def read_array_def)
  have rendered: "Builder_stringify (fst (invoke_all ?ops new_Builder)) = ''#x.c''"
    by (simp add: Builder_stringify_fields eval_defs)
  have this_ref: "snd (store_new_Builder []) = 0"
    by (simp add: store_new_Builder_def)
  have len: "length ?st = 5"
    by simp
  note inst = stringify_never_raises_nor_mutates [of "Suc (Suc 0)" ?ops "[]",
      unfolded this_ref, unfolded reached fst_conv replicate.simps rendered len]
  from reached inst show ?thesis
    by blast
qed

subsection \<open>The order check\<close>

text \<open>
  Claim C2, as amended. A call whose rank is strictly lower than a rank already
  appended raises an error: \<open>DuplicateFragmentError\<close> when the call is \<open>element\<close>,
  \<open>id\<close> or \<open>pseudoElement\<close> and that fragment is already set, because the duplicate
  guard runs before the order check, and \<open>OrderViolationError\<close> otherwise. A call
  whose rank is at least every rank already appended raises no order error, provided
  that the ranks appended so far are still non-decreasing, that is, no earlier call on
  the builder raised \<open>OrderViolationError\<close>.
\<close>

theorem order_check_by_rank:
  "((\<exists>r\<in>set (order this). rank c < r) \<longrightarrow>
      snd (apply_call c this) =
        Some (if duplicate_guard c this then DuplicateFragmentError else OrderViolationError))
   \<and> (sorted (order this) \<and> (\<forall>r\<in>set (order this). r \<le> rank c) \<longrightarrow>
      snd (apply_call c this) \<noteq> Some OrderViolationError)"
proof (intro conjI impI)
  assume "\<exists>r\<in>set (order this). rank c < r"
  then have "\<not> (\<forall>x\<in>set (order this). x \<le> rank c)"
    by (meson leD)
  then have "\<not> sorted (order this @ [rank c])"
    by (simp add: sorted_snoc_iff)
  then show "snd (apply_call c this) =
      Some (if duplicate_guard c this then DuplicateFragmentError else OrderViolationError)"
    by (simp add: apply_call_error)
next
  assume "sorted (order this) \<and> (\<forall>r\<in>set (order this). r \<le> rank c)"
  then have "sorted (order this @ [rank c])"
    by (simp add: sorted_snoc_iff)
  then show "snd (apply_call c this) \<noteq> Some OrderViolationError"
    by (simp add: apply_call_error)
qed

text \<open>
  Claim C2 as it was stated fails twice. After \<^verbatim>\<open>element('a').class('c')\<close> the call
  \<^verbatim>\<open>element('b')\<close> has rank 1 below the appended rank 3 and raises
  \<open>DuplicateFragmentError\<close>, not \<open>OrderViolationError\<close>. And on a builder where
  \<^verbatim>\<open>id('x')\<close> after \<^verbatim>\<open>class('c')\<close> threw and was caught, \<^verbatim>\<open>pseudoClass('y')\<close> has rank 5,
  above the appended ranks 3 and 2, and raises \<open>OrderViolationError\<close>.
\<close>

theorem order_check_by_rank_counterexample:
  "order (fst (chain [Element ''a'', Class ''c''] new_Builder)) = [1, 3] \<and>
   rank (Element ''b'') = 1 \<and>
   snd (apply_call (Element ''b'') (fst (chain [Element ''a'', Class ''c''] new_Builder)))
     = Some DuplicateFragmentError \<and>
   order (catching [Class ''c'', Id ''x''] new_Builder) = [3, 2] \<and>
   rank (PseudoClass ''y'') = 5 \<and>
   snd (apply_call (PseudoClass ''y'') (catching [Class ''c'', Id ''x''] new_Builder))
     = Some OrderViolationError"
  by (simp add: eval_defs)

text \<open>
  Instances of the amended claim: \<open>id\<close> after \<open>class\<close> raises the order error,
  \<open>element\<close> after \<open>element\<close> and \<open>class\<close> raises the duplicate error, \<open>attr\<close> after
  \<open>id\<close> and \<open>class\<close> raises no order error.
\<close>

theorem order_check_by_rank_witness:
  "snd (apply_call (Id ''main'') (fst (chain [Class ''c''] new_Builder)))
     = Some OrderViolationError \<and>
   snd (apply_call (Element ''b'') (fst (chain [Element ''a'', Class ''c''] new_Builder)))
     = Some DuplicateFragmentError \<and>
   snd (apply_call (Attr ''x'') (fst (chain [Id ''main'', Class ''c''] new_Builder)))
     \<noteq> Some OrderViolationError"
proof -
  let ?b1 = "fst (chain [Class ''c''] new_Builder)"
  let ?b2 = "fst (chain [Element ''a'', Class ''c''] new_Builder)"
  let ?b3 = "fst (chain [Id ''main'', Class ''c''] new_Builder)"
  have lower1: "\<exists>r\<in>set (order ?b1). rank (Id ''main'') < r"
    and free1: "\<not> duplicate_guard (Id ''main'') ?b1"
    by (simp_all add: eval_defs)
  have lower2: "\<exists>r\<in>set (order ?b2). rank (Element ''b'') < r"
    and taken2: "duplicate_guard (Element ''b'') ?b2"
    by (simp_all add: eval_defs)
  have upper3: "sorted (order ?b3) \<and> (\<forall>r\<in>set (order ?b3). r \<le> rank (Attr ''x''))"
    by (simp add: eval_defs)
  from order_check_by_rank [of ?b1 "Id ''main''"] lower1 free1
  have first: "snd (apply_call (Id ''main'') ?b1) = Some OrderViolationError"
    by presburger
  from order_check_by_rank [of ?b2 "Element ''b''"] lower2 taken2
  have second: "snd (apply_call (Element ''b'') ?b2) = Some DuplicateFragmentError"
    by presburger
  from order_check_by_rank [of ?b3 "Attr ''x''"] upper3
  have third: "snd (apply_call (Attr ''x'') ?b3) \<noteq> Some OrderViolationError"
    by presburger
  from first second third show ?thesis
    by blast
qed

lemma catching_snoc: "catching (cs @ [c]) this = fst (apply_call c (catching cs this))"
  by (simp add: catching_def)

lemma catching_keeps_violation:
  "\<not> sorted (order this) \<Longrightarrow> \<not> sorted (order (catching cs this))"
proof (induction cs rule: rev_induct)
  case Nil
  then show ?case by (simp add: catching_def)
next
  case (snoc c cs)
  then have "\<not> sorted (order (catching cs this))"
    by simp
  then show ?case
    by (simp add: catching_snoc apply_call_order sorted_snoc_iff)
qed

text \<open>
  Claim C10, as amended. Once a call on a builder has raised \<open>OrderViolationError\<close>,
  every later fragment-adding call on that builder raises an error too, whatever its
  rank and whatever calls were made (and caught) in between: \<open>DuplicateFragmentError\<close>
  when the call is \<open>element\<close>, \<open>id\<close> or \<open>pseudoElement\<close> and that fragment is already
  set, \<open>OrderViolationError\<close> otherwise.
\<close>

theorem order_violation_is_permanent:
  assumes "snd (apply_call c0 this) = Some OrderViolationError"
  shows "snd (apply_call c (catching cs (fst (apply_call c0 this)))) =
     Some (if duplicate_guard c (catching cs (fst (apply_call c0 this)))
           then DuplicateFragmentError else OrderViolationError)"
proof -
  from assms have "\<not> duplicate_guard c0 this" and "\<not> sorted (order this @ [rank c0])"
    by (auto simp: apply_call_error split: if_splits)
  then have "\<not> sorted (order (fst (apply_call c0 this)))"
    by (simp add: apply_call_order)
  then have "\<not> sorted (order (catching cs (fst (apply_call c0 this))))"
    by (rule catching_keeps_violation)
  then have "\<not> sorted (order (catching cs (fst (apply_call c0 this))) @ [rank c])"
    by (simp add: sorted_snoc_iff)
  then show ?thesis
    by (simp add: apply_call_error)
qed

text \<open>
  Claim C10 as it was stated fails: \<^verbatim>\<open>id('x')\<close> after \<^verbatim>\<open>class('c')\<close> raises
  \<open>OrderViolationError\<close> and has already stored \<open>#x\<close>, so the next \<^verbatim>\<open>id('y')\<close> raises
  \<open>DuplicateFragmentError\<close>.
\<close>

theorem order_violation_is_permanent_counterexample:
  "snd (apply_call (Id ''x'') (fst (apply_call (Class ''c'') new_Builder)))
     = Some OrderViolationError \<and>
   snd (apply_call (Id ''y'')
         (fst (apply_call (Id ''x'') (fst (apply_call (Class ''c'') new_Builder)))))
     = Some DuplicateFragmentError"
  by (simp add: eval_defs)

text \<open>
  Instances of the amended claim on that builder, after one more caught call:
  \<open>pseudoElement\<close>, of the highest rank, raises the order error, and \<open>id\<close> raises the
  duplicate error.
\<close>

theorem order_violation_is_permanent_witness:
  "snd (apply_call (Id ''x'') (fst (apply_call (Class ''c'') new_Builder)))
     = Some OrderViolationError \<and>
   snd (apply_call (PseudoElement ''after'')
         (catching [Attr ''a''] (fst (apply_call (Id ''x'') (fst (apply_call (Class ''c'') new_Builder))))))
     = Some OrderViolationError \<and>
   snd (apply_call (Id ''y'')
         (catching [Attr ''a''] (fst (apply_call (Id ''x'') (fst (apply_call (Class ''c'') new_Builder))))))
     = Some DuplicateFragmentError"
proof -
  let ?b = "fst (apply_call (Class ''c'') new_Builder)"
  let ?b' = "catching [Attr ''a''] (fst (apply_call (Id ''x'') ?b))"
  have raised: "snd (apply_call (Id ''x'') ?b) = Some OrderViolationError"
    by (simp add: eval_defs)
  have guards: "\<not> duplicate_guard (PseudoElement ''after'') ?b'" "duplicate_guard (Id ''y'') ?b'"
    by (simp_all add: eval_defs)
  from order_violation_is_permanent [OF raised, of "PseudoElement ''after''" "[Attr ''a'']"]
    order_violation_is_permanent [OF raised, of "Id ''y''" "[Attr ''a'']"]
    guards raised
  show ?thesis
    by presburger
qed

text \<open>
  Claim C6. When \<open>class\<close>, \<open>attr\<close> or \<open>pseudoClass\<close> raises \<open>OrderViolationError\<close>, the
  formatted value has already been pushed: the list after the error is the list before
  the call with the formatted value at its end.
\<close>

theorem list_mutation_precedes_order_check:
  "(snd (Builder_class v this) = Some OrderViolationError \<longrightarrow>
      classes (fst (Builder_class v this)) = classes this @ [''.'' @ v])
   \<and> (snd (Builder_attr v this) = Some OrderViolationError \<longrightarrow>
      attributes (fst (Builder_attr v this)) = attributes this @ [''['' @ v @ '']''])
   \<and> (snd (Builder_pseudoClass v this) = Some OrderViolationError \<longrightarrow>
      pseudoClasses (fst (Builder_pseudoClass v this)) = pseudoClasses this @ ['':'' @ v])"
  by (simp add: fragment_defs)

text \<open>
  An instance: each of the three calls after \<^verbatim>\<open>pseudoElement('after')\<close>.
\<close>

theorem list_mutation_precedes_order_check_witness:
  "snd (Builder_class ''c'' (fst (Builder_pseudoElement ''after'' new_Builder)))
     = Some OrderViolationError \<and>
   classes (fst (Builder_class ''c'' (fst (Builder_pseudoElement ''after'' new_Builder))))
     = [''.c''] \<and>
   snd (Builder_attr ''c'' (fst (Builder_pseudoElement ''after'' new_Builder)))
     = Some OrderViolationError \<and>
   attributes (fst (Builder_attr ''c'' (fst (Builder_pseudoElement ''after'' new_Builder))))
     = [''[c]''] \<and>
   snd (Builder_pseudoClass ''c'' (fst (Builder_pseudoElement ''after'' new_Builder)))
     = Some OrderViolationError \<and>
   pseudoClasses (fst (Builder_pseudoClass ''c'' (fst (Builder_pseudoElement ''after'' new_Builder))))
     = ['':c'']"
proof -
  let ?b = "fst (Builder_pseudoElement ''after'' new_Builder)"
  have b: "?b = \<lparr>elem = '''', idTag = '''', classes = [], attributes = [],
      pseudoClasses = [], pseudoElem = ''::after'', order = [6]\<rparr>"
    by (simp add: eval_defs)
  have raised: "snd (Builder_class ''c'' ?b) = Some OrderViolationError"
    "snd (Builder_attr ''c'' ?b) = Some OrderViolationError"
    "snd (Builder_pseudoClass ''c'' ?b) = Some OrderViolationError"
    unfolding b by (simp_all add: fragment_defs)
  have empty: "classes ?b = []" "attributes ?b = []" "pseudoClasses ?b = []"
    unfolding b by simp_all
  from list_mutation_precedes_order_check [of "''c''" ?b] raised
  have "classes (fst (Builder_class ''c'' ?b)) = classes ?b @ [''.'' @ ''c'']"
    and "attributes (fst (Builder_attr ''c'' ?b)) = attributes ?b @ [''['' @ ''c'' @ '']'']"
    and "pseudoClasses (fst (Builder_pseudoClass ''c'' ?b)) = pseudoClasses ?b @ ['':'' @ ''c'']"
    by blast+
  with raised show ?thesis
    unfolding empty by simp
qed

subsection \<open>Single and repeated fragments\<close>

text \<open>
  The guard of each single-valued method refuses a second call once the field is not
  empty. \<open>id\<close> and \<open>pseudoElement\<close> store a prefix with the value, so their field is
  never empty after a call, and a second call is refused whatever the two values are;
  \<open>element\<close> stores the value as it is, so its second call is refused when the first
  value is not the empty string or the element was set before.
\<close>

lemma second_single_fragment_is_refused:
  "(elem this \<noteq> '''' \<or> v1 \<noteq> '''' \<longrightarrow>
      snd (Builder_element v2 (fst (Builder_element v1 this))) = Some DuplicateFragmentError)
   \<and> snd (Builder_id v2 (fst (Builder_id v1 this))) = Some DuplicateFragmentError
   \<and> snd (Builder_pseudoElement v2 (fst (Builder_pseudoElement v1 this)))
       = Some DuplicateFragmentError"
  by (simp add: fragment_defs Builder_isAlreadyDefined_def)

text \<open>
  Claim C3. Calling \<open>element\<close> twice on the same builder is to raise
  \<open>DuplicateFragmentError\<close> on the second call, for every pair of values, and likewise
  \<open>id\<close> and \<open>pseudoElement\<close>. The code does not do so for \<open>element\<close> when the first
  value is the empty string: \<^verbatim>\<open>element('')\<close> leaves \<^verbatim>\<open>elem\<close> equal to the value that
  stands for "not set", so \<^verbatim>\<open>element('div')\<close> after it returns normally and the
  builder renders \<open>div\<close>. With the same values \<open>id\<close> and \<open>pseudoElement\<close> refuse the
  second call.
\<close>

theorem element_after_empty_element_is_accepted:
  "snd (Builder_element '''' new_Builder) = None \<and>
   snd (Builder_element ''div'' (fst (Builder_element '''' new_Builder))) = None \<and>
   Builder_stringify (fst (Builder_element ''div'' (fst (Builder_element '''' new_Builder))))
     = ''div'' \<and>
   snd (Builder_id ''div'' (fst (Builder_id '''' new_Builder))) = Some DuplicateFragmentError \<and>
   snd (Builder_pseudoElement ''div'' (fst (Builder_pseudoElement '''' new_Builder)))
     = Some DuplicateFragmentError"
  by (simp add: eval_defs Builder_stringify_fields)

lemma is_list_call_no_guard: "is_list_call c \<Longrightarrow> \<not> duplicate_guard c this"
  by (cases c) simp_all

lemma chain_list_calls_no_error:
  assumes "\<forall>c\<in>set cs. is_list_call c" and "sorted (order this @ map rank cs)"
  shows "snd (chain cs this) = None"
  using assms
proof (induction cs arbitrary: this)
  case Nil
  then show ?case by simp
next
  case (Cons c cs)
  obtain this1 e where step: "apply_call c this = (this1, e)"
    by (cases "apply_call c this")
  from Cons.prems(1) have guard: "\<not> duplicate_guard c this"
    by (simp add: is_list_call_no_guard)
  from Cons.prems(2) have "sorted ((order this @ [rank c]) @ map rank cs)"
    by simp
  then have now: "sorted (order this @ [rank c])"
    unfolding sorted_append [of "order this @ [rank c]"] by blast
  from step guard now have e: "e = None"
    using apply_call_error [of c this] by simp
  from step guard have "order this1 = order this @ [rank c]"
    using apply_call_order [of c this] by simp
  with Cons.prems have "snd (chain cs this1) = None"
    by (intro Cons.IH) simp_all
  with step e show ?case
    by simp
qed

text \<open>
  Claim C4. Calls of \<open>class\<close>, \<open>attr\<close> and \<open>pseudoClass\<close>, any number of them and with
  values that may repeat, made in valid category order on a builder (the ranks
  appended so far, followed by the ranks of the calls, are non-decreasing), raise no
  error; each call adds its formatted value once, at the end of its list, and
  \<open>stringify\<close> then returns the earlier rendering with the new values of each category
  after the earlier ones of that category, in call order.
\<close>

theorem list_fragments_repeat_freely:
  assumes "\<forall>c\<in>set cs. is_list_call c" and "sorted (order this @ map rank cs)"
  shows "snd (chain cs this) = None
       \<and> classes (fst (chain cs this)) = classes this @ fragments 3 cs
       \<and> attributes (fst (chain cs this)) = attributes this @ fragments 4 cs
       \<and> pseudoClasses (fst (chain cs this)) = pseudoClasses this @ fragments 5 cs
       \<and> Builder_stringify (fst (chain cs this)) =
           elem this @ idTag this @
           concat (classes this) @ concat (fragments 3 cs) @
           concat (attributes this) @ concat (fragments 4 cs) @
           concat (pseudoClasses this) @ concat (fragments 5 cs) @
           pseudoElem this"
proof -
  have ok: "snd (chain cs this) = None"
    using assms by (rule chain_list_calls_no_error)
  then have run: "chain cs this = (fst (chain cs this), None)"
    by (metis prod.collapse)
  have "\<forall>c\<in>set cs. rank c \<noteq> 1 \<and> rank c \<noteq> 2 \<and> rank c \<noteq> 6"
  proof
    fix c assume "c \<in> set cs"
    with assms(1) have "is_list_call c" by blast
    then show "rank c \<noteq> 1 \<and> rank c \<noteq> 2 \<and> rank c \<noteq> 6"
      by (cases c) simp_all
  qed
  then have none: "fragments (Suc 0) cs = []" "fragments 2 cs = []" "fragments 6 cs = []"
    by (simp_all add: fragments_def)
  show ?thesis
    using ok chain_ok_fields [OF run] chain_stringify [OF run]
    by (simp add: none)
qed

text \<open>
  An instance with repeated values, on the builder of \<^verbatim>\<open>element('div').class('b')\<close>.
\<close>

theorem list_fragments_repeat_freely_witness:
  "snd (chain [Class ''a'', Class ''a'', Attr ''x'', Attr ''x'', PseudoClass ''hover'']
         (fst (chain [Element ''div'', Class ''b''] new_Builder))) = None \<and>
   Builder_stringify
     (fst (chain [Class ''a'', Class ''a'', Attr ''x'', Attr ''x'', PseudoClass ''hover'']
            (fst (chain [Element ''div'', Class ''b''] new_Builder))))
     = ''div.b.a.a[x][x]:hover''"
proof -
  let ?b = "fst (chain [Element ''div'', Class ''b''] new_Builder)"
  let ?cs = "[Class ''a'', Class ''a'', Attr ''x'', Attr ''x'', PseudoClass ''hover'']"
  have b: "?b = \<lparr>elem = ''div'', idTag = '''', classes = [''.b''], attributes = [],
      pseudoClasses = [], pseudoElem = '''', order = [1, 3]\<rparr>"
    by (simp add: eval_defs)
  have calls: "\<forall>c\<in>set ?cs. is_list_call c"
    by simp
  have ranks: "sorted (order ?b @ map rank ?cs)"
    unfolding b by simp
  note list_fragments_repeat_freely [OF calls ranks]
  then have "snd (chain ?cs ?b) = None"
    and "Builder_stringify (fst (chain ?cs ?b)) =
           elem ?b @ idTag ?b @
           concat (classes ?b) @ concat (fragments 3 ?cs) @
           concat (attributes ?b) @ concat (fragments 4 ?cs) @
           concat (pseudoClasses ?b) @ concat (fragments 5 ?cs) @
           pseudoElem ?b"
    by blast+
  moreover have "elem ?b @ idTag ?b @
           concat (classes ?b) @ concat (fragments 3 ?cs) @
           concat (attributes ?b) @ concat (fragments 4 ?cs) @
           concat (pseudoClasses ?b) @ concat (fragments 5 ?cs) @
           pseudoElem ?b = ''div.b.a.a[x][x]:hover''"
    unfolding b by (simp add: fragments_def)
  ultimately show ?thesis
    by (simp only:)
qed

subsection \<open>combine\<close>

lemma combine_Some:
  assumes "ref_stringify h selector1 = Some s1" and "ref_stringify h selector2 = Some s2"
  shows "cssSelectorBuilder_combine h selector1 combinator selector2 =
     Some (h @ [CombinedObj \<lparr>result = s1 @ '' '' @ combinator @ '' '' @ s2\<rparr>], length h)"
  using assms by (simp add: cssSelectorBuilder_combine_def)

lemma ref_stringify_new: "ref_stringify (h @ [ob]) (length h) = Some (obj_stringify ob)"
  by (simp add: ref_stringify_def)

text \<open>
  Claim C5. For two objects that render as \<open>s1\<close> and \<open>s2\<close> and any combinator string,
  \<open>combine\<close> returns a new object that renders as \<open>s1\<close>, a space, the combinator, a
  space, \<open>s2\<close>.
\<close>

theorem combine_renders_both_sides:
  assumes "ref_stringify h selector1 = Some s1" and "ref_stringify h selector2 = Some s2"
  shows "\<exists>h' r. cssSelectorBuilder_combine h selector1 combinator selector2 = Some (h', r)
           \<and> ref_stringify h' r = Some (s1 @ '' '' @ combinator @ '' '' @ s2)"
  using combine_Some [OF assms] by (simp add: ref_stringify_new)

text \<open>
  The scenario \<^verbatim>\<open>combine(element('div').id('main'), '+', element('table').id('data'))\<close>.
\<close>

theorem combine_renders_both_sides_witness:
  "\<exists>h' r.
     cssSelectorBuilder_combine
       [BuilderObj (fst (chain [Element ''div'', Id ''main''] new_Builder)),
        BuilderObj (fst (chain [Element ''table'', Id ''data''] new_Builder))]
       0 ''+'' 1 = Some (h', r)
     \<and> ref_stringify h' r = Some ''div#main + table#data''"
proof -
  let ?h = "[BuilderObj (fst (chain [Element ''div'', Id ''main''] new_Builder)),
             BuilderObj (fst (chain [Element ''table'', Id ''data''] new_Builder))]"
  have left: "ref_stringify ?h 0 = Some ''div#main''"
    by (simp add: ref_stringify_def Builder_stringify_fields eval_defs)
  have right: "ref_stringify ?h 1 = Some ''table#data''"
    by (simp add: ref_stringify_def Builder_stringify_fields eval_defs)
  from combine_renders_both_sides [OF left right, of "''+''"] show ?thesis
    by simp
qed

lemma combine_result:
  assumes "cssSelectorBuilder_combine h selector1 combinator selector2 = Some (h1, r)"
  shows "\<exists>s1 s2. ref_stringify h selector1 = Some s1 \<and> ref_stringify h selector2 = Some s2
           \<and> r < length h1
           \<and> h1 ! r = CombinedObj \<lparr>result = s1 @ '' '' @ combinator @ '' '' @ s2\<rparr>"
  using assms
  by (auto simp: cssSelectorBuilder_combine_def nth_append split: option.splits)

lemma ref_call_keeps_combined:
  assumes "r < length h" and "h ! r = CombinedObj c"
  shows "r < length (fst (ref_call h rc)) \<and> fst (ref_call h rc) ! r = CombinedObj c"
proof (cases "fst rc < length h")
  case False
  with assms show ?thesis by (simp add: ref_call_def)
next
  case True
  show ?thesis
  proof (cases "h ! fst rc")
    case (CombinedObj c')
    with True assms show ?thesis by (simp add: ref_call_def)
  next
    case (BuilderObj b)
    with assms have "fst rc \<noteq> r" by auto
    with True BuilderObj assms show ?thesis
      by (simp add: ref_call_def split: prod.splits)
  qed
qed

lemma ref_calls_keep_combined:
  assumes "r < length h" and "h ! r = CombinedObj c"
  shows "r < length (ref_calls h rcs) \<and> ref_calls h rcs ! r = CombinedObj c"
  using assms
proof (induction rcs arbitrary: h)
  case Nil
  then show ?case by (simp add: ref_calls_def)
next
  case (Cons rc rcs)
  from ref_call_keeps_combined [OF Cons.prems]
  have "r < length (fst (ref_call h rc))" and "fst (ref_call h rc) ! r = CombinedObj c"
    by blast+
  then have "r < length (ref_calls (fst (ref_call h rc)) rcs) \<and>
      ref_calls (fst (ref_call h rc)) rcs ! r = CombinedObj c"
    by (rule Cons.IH)
  then show ?case
    by (simp add: ref_calls_def)
qed

text \<open>
  Claim C7. The object that \<open>combine\<close> returns keeps the strings its operands rendered
  to when \<open>combine\<close> was called: after any later fragment-adding calls through any
  references, the operands among them, it still renders as the left rendering of that
  time, a space, the combinator, a space, and the right rendering of that time.
\<close>

theorem combine_is_snapshot:
  assumes "cssSelectorBuilder_combine h selector1 combinator selector2 = Some (h1, r)"
  shows "\<exists>s1 s2. ref_stringify h selector1 = Some s1 \<and> ref_stringify h selector2 = Some s2
           \<and> ref_stringify (ref_calls h1 rcs) r = Some (s1 @ '' '' @ combinator @ '' '' @ s2)"
proof -
  from combine_result [OF assms] obtain s1 s2
    where s: "ref_stringify h selector1 = Some s1" "ref_stringify h selector2 = Some s2"
      and r: "r < length h1"
        "h1 ! r = CombinedObj \<lparr>result = s1 @ '' '' @ combinator @ '' '' @ s2\<rparr>"
    by blast
  from ref_calls_keep_combined [OF r, of rcs]
  have "ref_stringify (ref_calls h1 rcs) r = Some (s1 @ '' '' @ combinator @ '' '' @ s2)"
    by (simp add: ref_stringify_def)
  with s show ?thesis
    by blast
qed

text \<open>
  An instance: after \<^verbatim>\<open>combine(div, '>', p)\<close>, the calls \<^verbatim>\<open>div.class('x')\<close> and
  \<^verbatim>\<open>p.id('y')\<close> change what \<open>div\<close> renders to, and the combined object still renders
  as \<open>div > p\<close>.
\<close>

theorem combine_is_snapshot_witness:
  "cssSelectorBuilder_combine
     [BuilderObj (fst (Builder_element ''div'' new_Builder)),
      BuilderObj (fst (Builder_element ''p'' new_Builder))] 0 ''>'' 1
     = Some ([BuilderObj (fst (Builder_element ''div'' new_Builder)),
              BuilderObj (fst (Builder_element ''p'' new_Builder)),
              CombinedObj \<lparr>result = ''div > p''\<rparr>], 2) \<and>
   ref_stringify
     (ref_calls [BuilderObj (fst (Builder_element ''div'' new_Builder)),
                 BuilderObj (fst (Builder_element ''p'' new_Builder)),
                 CombinedObj \<lparr>result = ''div > p''\<rparr>]
        [(0, Class ''x''), (1, Id ''y'')]) 2 = Some ''div > p'' \<and>
   ref_stringify
     (ref_calls [BuilderObj (fst (Builder_element ''div'' new_Builder)),
                 BuilderObj (fst (Builder_element ''p'' new_Builder)),
                 CombinedObj \<lparr>result = ''div > p''\<rparr>]
        [(0, Class ''x''), (1, Id ''y'')]) 0 = Some ''div.x''"
proof -
  let ?h = "[BuilderObj (fst (Builder_element ''div'' new_Builder)),
             BuilderObj (fst (Builder_element ''p'' new_Builder))]"
  let ?h1 = "?h @ [CombinedObj \<lparr>result = ''div > p''\<rparr>]"
  let ?rcs = "[(0, Class ''x''), (1, Id ''y'')] :: (nat \<times> call) list"
  have left: "ref_stringify ?h 0 = Some ''div''" and right: "ref_stringify ?h 1 = Some ''p''"
    by (simp_all add: ref_stringify_def Builder_stringify_fields eval_defs)
  have made: "cssSelectorBuilder_combine ?h 0 ''>'' 1 = Some (?h1, 2)"
    using combine_Some [OF left right, of "''>''"] by simp
  from combine_is_snapshot [OF made, of ?rcs] left right
  have kept: "ref_stringify (ref_calls ?h1 ?rcs) 2 = Some ''div > p''"
    by simp
  have changed: "ref_stringify (ref_calls ?h1 ?rcs) 0 = Some ''div.x''"
    by (simp add: ref_calls_def ref_call_def ref_stringify_def Builder_stringify_fields eval_defs)
  from made kept changed show ?thesis
    by simp
qed

subsection \<open>The JSON round trip\<close>






end
